theory Spec2Isabelle
  imports Main "HOL-Library.Word" "HOL-Library.Sublist"
begin

section \<open>The callback registry of callbacks.hpp\<close>

text \<open>
  The header defines a class template \<open>Callback\<close> (one callable and its id), a class
  template \<open>Callbacks\<close> (the registry: a \<open>std::vector\<close> of entries and an id counter) and
  two derived registries with a short-circuiting invocation.

  The embedding follows the source member by member.
  \<^item> \<open>int\<close> is a 32-bit two's complement integer. The id counter is a
    \<open>std::atomic<int>\<close>, modelled as a \<open>32 word\<close>: its increment wraps around, with no
    undefined result for the stored value (\<open>fetch_add\<close>), and the value returned is the
    stored one. A plain \<open>int\<close> that is incremented past \<open>INT_MAX\<close> is undefined
    behaviour, which the model reports as a fault.
  \<^item> The argument pack \<open>CallbackArguments...\<close> is one type \<open>'a\<close> (a tuple of the
    arguments), the return type is \<open>'r\<close>.
  \<^item> A \<open>std::function\<close> may capture and change state of its own. A callable is therefore a
    function from the arguments and the state of everything outside the registry (the
    world, \<open>'w\<close>) to a result and a new world. Callables that return normally and do not
    touch the registry that is calling them are the ones the model covers.
  \<^item> \<open>std::vector\<close> is a list, \<open>push_back\<close> appends, \<open>erase(begin() + i)\<close> removes
    position \<open>i\<close>, \<open>clear\<close> gives the empty list. Allocation does not fail.
  \<^item> Member functions run one at a time: the model is sequential.
\<close>

type_synonym int32 = "32 word"

type_synonym ('a, 'r, 'w) CallbackFunctionType = "'a \<Rightarrow> 'w \<Rightarrow> 'r \<times> 'w"

text \<open>
  A member function whose behaviour the language leaves undefined has no result: the
  model returns the fault instead, and promises nothing about what the program does.
\<close>

datatype fault = UndefinedBehaviour

text \<open>Class \<open>Callback\<close>: the public members \<open>m_id\<close> and \<open>m_callback\<close>.\<close>

record ('a, 'r, 'w) Callback =
  m_id :: int32
  m_callback :: "('a, 'r, 'w) CallbackFunctionType"

text \<open>\<open>Callback::operator()\<close>: \<open>return m_callback(arguments...)\<close>.\<close>

definition Callback_call ::
  "('a, 'r, 'w) Callback \<Rightarrow> 'a \<Rightarrow> 'w \<Rightarrow> 'r \<times> 'w" where
  "Callback_call callback arguments w = m_callback callback arguments w"

text \<open>Class \<open>Callbacks\<close>: the protected members \<open>m_callbacks\<close> and
  \<open>m_lastAssignedCallback_ID\<close>.\<close>

record ('a, 'r, 'w) Callbacks =
  m_callbacks :: "('a, 'r, 'w) Callback list"
  m_lastAssignedCallback_ID :: int32

text \<open>
  The default constructor \<open>Callbacks(){}\<close> has no initialiser list and the members have no
  default member initialiser. The vector is empty. The counter is what the default
  constructor of \<open>std::atomic<int>\<close> leaves in it, and the source does not say what that
  is: before C++20 the value is indeterminate, since C++20 it is 0. The constructor
  therefore takes the value the counter happens to start with as its parameter.
\<close>

definition Callbacks_ctor :: "int32 \<Rightarrow> ('a, 'r, 'w) Callbacks" where
  "Callbacks_ctor indeterminate = \<lparr>m_callbacks = [], m_lastAssignedCallback_ID = indeterminate\<rparr>"

text \<open>
  \<open>register_callback\<close>: pre-increment the counter, build the entry, \<open>push_back\<close> it, return
  its id. The result is the returned id and the registry after the call.
\<close>

definition register_callback ::
  "('a, 'r, 'w) CallbackFunctionType \<Rightarrow> ('a, 'r, 'w) Callbacks
     \<Rightarrow> int32 \<times> ('a, 'r, 'w) Callbacks" where
  "register_callback callback s =
     (let incremented = m_lastAssignedCallback_ID s + 1;
          newCallback = \<lparr>m_id = incremented, m_callback = callback\<rparr>
      in (m_id newCallback,
          s\<lparr>m_callbacks := m_callbacks s @ [newCallback],
            m_lastAssignedCallback_ID := incremented\<rparr>))"

text \<open>
  \<open>deregister_callback\<close>: the index loop \<open>for(int i = 0; i < m_callbacks.size(); ++i)\<close>.
  The index is a plain \<open>int\<close> that starts at 0 and only grows, so it is a natural number
  of at most \<open>INT_MAX\<close>; compared with \<open>size()\<close> it is converted to the unsigned size
  type, which keeps its value. When the entry at index \<open>INT_MAX\<close> does not match, \<open>++i\<close>
  overflows: undefined behaviour.
\<close>

definition INT_MAX :: nat where
  "INT_MAX = 2147483647"

function deregister_loop ::
  "int32 \<Rightarrow> nat \<Rightarrow> ('a, 'r, 'w) Callback list
     \<Rightarrow> fault + bool \<times> ('a, 'r, 'w) Callback list" where
  "deregister_loop callbackID i cbs =
     (if i < length cbs
      then (if m_id (cbs ! i) = callbackID
            then Inr (True, take i cbs @ drop (Suc i) cbs)
            else if i = INT_MAX then Inl UndefinedBehaviour
            else deregister_loop callbackID (Suc i) cbs)
      else Inr (False, cbs))"
  by pat_completeness auto
termination
  by (relation "measure (\<lambda>(callbackID, i, cbs). length cbs - i)") auto

declare deregister_loop.simps [simp del]

definition deregister_callback ::
  "int32 \<Rightarrow> ('a, 'r, 'w) Callbacks \<Rightarrow> fault + bool \<times> ('a, 'r, 'w) Callbacks" where
  "deregister_callback callbackID s =
     (case deregister_loop callbackID 0 (m_callbacks s) of
        Inl undefined_behaviour \<Rightarrow> Inl undefined_behaviour
      | Inr (found, cbs) \<Rightarrow> Inr (found, s\<lparr>m_callbacks := cbs\<rparr>))"

text \<open>\<open>deregister_all_callbacks\<close>: \<open>m_callbacks.clear()\<close>.\<close>

definition deregister_all_callbacks :: "('a, 'r, 'w) Callbacks \<Rightarrow> ('a, 'r, 'w) Callbacks" where
  "deregister_all_callbacks s = s\<lparr>m_callbacks := []\<rparr>"

text \<open>
  \<open>invokeCallbacks\<close> and \<open>operator()\<close> are two member functions with a range-for loop each.
  Both are \<open>const\<close>: they return no registry. Both are declared to return
  \<open>CallbackReturnType\<close> and neither body has a \<open>return\<close> statement. When
  \<open>CallbackReturnType\<close> is \<open>void\<close> the call ends after the loop, with the world the
  callables left behind. For every other return type control flows off the end of a
  value-returning function: undefined behaviour. Which of the two holds is decided by the
  template argument; the model takes it as the parameter \<open>returns_void\<close>.
\<close>

fun invokeCallbacks_loop :: "('a, 'r, 'w) Callback list \<Rightarrow> 'a \<Rightarrow> 'w \<Rightarrow> 'w" where
  "invokeCallbacks_loop [] arguments w = w"
| "invokeCallbacks_loop (callback # rest) arguments w =
     invokeCallbacks_loop rest arguments (snd (Callback_call callback arguments w))"

definition invokeCallbacks ::
  "bool \<Rightarrow> ('a, 'r, 'w) Callbacks \<Rightarrow> 'a \<Rightarrow> 'w \<Rightarrow> fault + 'w" where
  "invokeCallbacks returns_void s arguments w =
     (let after_loop = invokeCallbacks_loop (m_callbacks s) arguments w
      in if returns_void then Inr after_loop else Inl UndefinedBehaviour)"

fun Callbacks_call_loop :: "('a, 'r, 'w) Callback list \<Rightarrow> 'a \<Rightarrow> 'w \<Rightarrow> 'w" where
  "Callbacks_call_loop [] arguments w = w"
| "Callbacks_call_loop (callback # rest) arguments w =
     (case Callback_call callback arguments w of
        (discarded, w') \<Rightarrow> Callbacks_call_loop rest arguments w')"

definition Callbacks_call ::
  "bool \<Rightarrow> ('a, 'r, 'w) Callbacks \<Rightarrow> 'a \<Rightarrow> 'w \<Rightarrow> fault + 'w" where
  "Callbacks_call returns_void s arguments w =
     (let after_loop = Callbacks_call_loop (m_callbacks s) arguments w
      in if returns_void then Inr after_loop else Inl UndefinedBehaviour)"

text \<open>
  \<open>CallbacksReturningAContainer\<close>: the return type is a container with \<open>empty()\<close>, modelled
  as a list of its elements; the default-constructed container is \<open>[]\<close> and \<open>empty()\<close> is
  \<open>r = []\<close>. The local \<open>callbackReturn\<close> is threaded through the loop as in the source: it
  is assigned by every call and returned after the loop.
\<close>

fun untilNonEmpty_loop ::
  "('a, 'x list, 'w) Callback list \<Rightarrow> 'a \<Rightarrow> 'x list \<Rightarrow> 'w \<Rightarrow> 'x list \<times> 'w" where
  "untilNonEmpty_loop [] arguments callbackReturn w = (callbackReturn, w)"
| "untilNonEmpty_loop (callback # rest) arguments callbackReturn w =
     (case Callback_call callback arguments w of
        (assigned, w') \<Rightarrow>
          if assigned \<noteq> [] then (assigned, w')
          else untilNonEmpty_loop rest arguments assigned w')"

definition invokeCallbacksUntilOneOfThemReturnsANonEmptyContainer ::
  "('a, 'x list, 'w) Callbacks \<Rightarrow> 'a \<Rightarrow> 'w \<Rightarrow> 'x list \<times> 'w" where
  "invokeCallbacksUntilOneOfThemReturnsANonEmptyContainer s arguments w =
     untilNonEmpty_loop (m_callbacks s) arguments [] w"

text \<open>\<open>CallbacksReturningABoolean\<close>: the return type is \<open>bool\<close>.\<close>

fun untilNonZero_loop :: "('a, bool, 'w) Callback list \<Rightarrow> 'a \<Rightarrow> 'w \<Rightarrow> bool \<times> 'w" where
  "untilNonZero_loop [] arguments w = (False, w)"
| "untilNonZero_loop (callback # rest) arguments w =
     (case Callback_call callback arguments w of
        (truth, w') \<Rightarrow>
          if truth then (True, w') else untilNonZero_loop rest arguments w')"

definition invokeCallbacksUntilOneOfThemReturnsANonZeroValue ::
  "('a, bool, 'w) Callbacks \<Rightarrow> 'a \<Rightarrow> 'w \<Rightarrow> bool \<times> 'w" where
  "invokeCallbacksUntilOneOfThemReturnsANonZeroValue s arguments w =
     untilNonZero_loop (m_callbacks s) arguments w"

section \<open>Observing a registry\<close>

text \<open>
  \<open>erase_first\<close> removes the first entry that carries a given id and keeps every other
  entry in place. It is the structural reading of what the index loop of
  \<open>deregister_callback\<close> does when it finds a match.
\<close>

fun erase_first :: "int32 \<Rightarrow> ('a, 'r, 'w) Callback list \<Rightarrow> ('a, 'r, 'w) Callback list" where
  "erase_first callbackID [] = []"
| "erase_first callbackID (callback # rest) =
     (if m_id callback = callbackID then rest else callback # erase_first callbackID rest)"


text \<open>Registering a list of callables, first to last.\<close>

definition register_all ::
  "('a, 'r, 'w) CallbackFunctionType list \<Rightarrow> ('a, 'r, 'w) Callbacks \<Rightarrow> ('a, 'r, 'w) Callbacks" where
  "register_all callbacks s = foldl (\<lambda>s' callback. snd (register_callback callback s')) s callbacks"

text \<open>
  Callables for observation: one that appends its tag and the arguments it received to a
  log, one that counts the calls made, and one that does nothing.
\<close>

definition logging_callback :: "'t \<Rightarrow> 'r \<Rightarrow> ('a, 'r, ('t \<times> 'a) list) CallbackFunctionType" where
  "logging_callback tag result arguments log = (result, log @ [(tag, arguments)])"

definition counting_callback :: "'r \<Rightarrow> (unit, 'r, nat) CallbackFunctionType" where
  "counting_callback result arguments calls = (result, Suc calls)"

definition noop :: "(unit, unit, unit) CallbackFunctionType" where
  "noop arguments w = ((), w)"

text \<open>
  A session is the life of one registry: the operations a caller performs on it after
  construction. An invocation is any \<open>const\<close> member function: it reads the registry and
  changes the world only. The session records the ids that \<open>register_callback\<close> returned.
  A session ends at the first operation whose behaviour is undefined.
\<close>

datatype ('a, 'r, 'w) operation =
    Register "('a, 'r, 'w) CallbackFunctionType"
  | Deregister int32
  | DeregisterAll
  | Invoke "('a, 'r, 'w) Callbacks \<Rightarrow> 'w \<Rightarrow> fault + 'w"

record ('a, 'r, 'w) session =
  registry :: "('a, 'r, 'w) Callbacks"
  world :: 'w
  returned :: "int32 list"

fun step ::
  "('a, 'r, 'w) session \<Rightarrow> ('a, 'r, 'w) operation \<Rightarrow> fault + ('a, 'r, 'w) session" where
  "step h (Register callback) =
     (case register_callback callback (registry h) of
        (newID, s') \<Rightarrow> Inr (h\<lparr>registry := s', returned := returned h @ [newID]\<rparr>))"
| "step h (Deregister callbackID) =
     (case deregister_callback callbackID (registry h) of
        Inl undefined_behaviour \<Rightarrow> Inl undefined_behaviour
      | Inr (found, s') \<Rightarrow> Inr (h\<lparr>registry := s'\<rparr>))"
| "step h DeregisterAll = Inr (h\<lparr>registry := deregister_all_callbacks (registry h)\<rparr>)"
| "step h (Invoke invocation) =
     (case invocation (registry h) (world h) of
        Inl undefined_behaviour \<Rightarrow> Inl undefined_behaviour
      | Inr w' \<Rightarrow> Inr (h\<lparr>world := w'\<rparr>))"

fun run_from ::
  "('a, 'r, 'w) session \<Rightarrow> ('a, 'r, 'w) operation list \<Rightarrow> fault + ('a, 'r, 'w) session" where
  "run_from h [] = Inr h"
| "run_from h (x # ops) =
     (case step h x of
        Inl undefined_behaviour \<Rightarrow> Inl undefined_behaviour
      | Inr h' \<Rightarrow> run_from h' ops)"

definition run ::
  "int32 \<Rightarrow> 'w \<Rightarrow> ('a, 'r, 'w) operation list \<Rightarrow> fault + ('a, 'r, 'w) session" where
  "run indeterminate w ops =
     run_from \<lparr>registry = Callbacks_ctor indeterminate, world = w, returned = []\<rparr> ops"

definition registry_after ::
  "int32 \<Rightarrow> 'w \<Rightarrow> ('a, 'r, 'w) operation list \<Rightarrow> fault + ('a, 'r, 'w) Callbacks" where
  "registry_after indeterminate w ops =
     (case run indeterminate w ops of
        Inl undefined_behaviour \<Rightarrow> Inl undefined_behaviour
      | Inr h \<Rightarrow> Inr (registry h))"

fun is_Register :: "('a, 'r, 'w) operation \<Rightarrow> bool" where
  "is_Register (Register callback) = True"
| "is_Register other = False"

definition registrations :: "('a, 'r, 'w) operation list \<Rightarrow> nat" where
  "registrations ops = length (filter is_Register ops)"

text \<open>
  \<open>churn n\<close> registers a callable and deregisters it again, \<open>n\<close> times over, in a
  registry whose counter started at 0 and that already issued id 1: round \<open>k\<close> is handed
  id \<open>k + 2\<close>. The registry never holds more than two entries.
\<close>

definition churn :: "nat \<Rightarrow> (unit, unit, unit) operation list" where
  "churn n = concat (map (\<lambda>k. [Register noop, Deregister (word_of_nat (k + 2))]) [0..<n])"

text \<open>
  \<open>crowd n\<close> is the registry that holds \<open>n\<close> entries, registered one after the other
  from a counter that started at 0.
\<close>

definition crowd :: "nat \<Rightarrow> (unit, unit, unit) Callbacks" where
  "crowd n = register_all (replicate n noop) (Callbacks_ctor 0)"

text \<open>Registries and sessions used as concrete instances.\<close>

definition three_noops :: "(unit, unit, unit) Callbacks" where
  "three_noops = register_all [noop, noop, noop] (Callbacks_ctor 0)"

definition container_handlers :: "(unit, string, nat) Callbacks" where
  "container_handlers =
     register_all [counting_callback [], counting_callback ''X'', counting_callback ''Y'']
       (Callbacks_ctor 0)"


definition boolean_handlers :: "(unit, bool, nat) Callbacks" where
  "boolean_handlers =
     register_all [counting_callback False, counting_callback False, counting_callback True,
                   counting_callback False] (Callbacks_ctor 0)"


definition invoke_all_noops :: "(unit, unit, unit) Callbacks \<Rightarrow> unit \<Rightarrow> fault + unit" where
  "invoke_all_noops s w = invokeCallbacks True s () w"

definition short_session :: "(unit, unit, unit) operation list" where
  "short_session =
     [Register noop, Register noop, Deregister 1, Invoke invoke_all_noops, Register noop]"

definition short_session_end :: "(unit, unit, unit) session" where
  "short_session_end =
     \<lparr>registry = \<lparr>m_callbacks = [\<lparr>m_id = 2, m_callback = noop\<rparr>,
                                  \<lparr>m_id = 3, m_callback = noop\<rparr>],
                  m_lastAssignedCallback_ID = 3\<rparr>,
      world = (), returned = [1, 2, 3]\<rparr>"

section \<open>Loops read structurally\<close>

lemma register_callback_eq:
  "register_callback callback s =
     (m_lastAssignedCallback_ID s + 1,
      \<lparr>m_callbacks = m_callbacks s @ [\<lparr>m_id = m_lastAssignedCallback_ID s + 1, m_callback = callback\<rparr>],
       m_lastAssignedCallback_ID = m_lastAssignedCallback_ID s + 1\<rparr>)"
  by (simp add: register_callback_def Let_def)

lemma deregister_loop_from:
  "i \<le> length cbs \<Longrightarrow> i \<le> INT_MAX \<Longrightarrow>
   deregister_loop cid i cbs =
     (if cid \<in> m_id ` set (take (Suc INT_MAX - i) (drop i cbs))
      then Inr (True, take i cbs @ erase_first cid (drop i cbs))
      else if length cbs \<le> INT_MAX then Inr (False, cbs)
      else Inl UndefinedBehaviour)"
proof (induction cid i cbs rule: deregister_loop.induct)
  case (1 cid i cbs)
  note unfold = deregister_loop.simps [of cid i cbs]
  show ?case
  proof (cases "i < length cbs")
    case False
    with "1.prems" have i: "i = length cbs" by simp
    from False have "deregister_loop cid i cbs = Inr (False, cbs)"
      by (subst unfold) simp
    with i "1.prems" show ?thesis by simp
  next
    case True
    then have d: "drop i cbs = cbs ! i # drop (Suc i) cbs"
      by (simp add: Cons_nth_drop_Suc)
    from "1.prems" have window: "Suc INT_MAX - i = Suc (INT_MAX - i)"
      by simp
    show ?thesis
    proof (cases "m_id (cbs ! i) = cid")
      case hit: True
      with True have "deregister_loop cid i cbs = Inr (True, take i cbs @ drop (Suc i) cbs)"
        by (subst unfold) simp
      with hit d window show ?thesis by simp
    next
      case miss: False
      show ?thesis
      proof (cases "i = INT_MAX")
        case last: True
        with True miss have "deregister_loop cid i cbs = Inl UndefinedBehaviour"
          by (subst unfold) simp
        moreover from last have "Suc INT_MAX - i = Suc 0" by simp
        moreover from last True have "\<not> length cbs \<le> INT_MAX" by simp
        ultimately show ?thesis using miss d by simp
      next
        case more: False
        with True miss have "deregister_loop cid i cbs = deregister_loop cid (Suc i) cbs"
          by (subst unfold) simp
        also have "\<dots> =
          (if cid \<in> m_id ` set (take (Suc INT_MAX - Suc i) (drop (Suc i) cbs))
           then Inr (True, take (Suc i) cbs @ erase_first cid (drop (Suc i) cbs))
           else if length cbs \<le> INT_MAX then Inr (False, cbs)
           else Inl UndefinedBehaviour)"
          using "1.IH" [OF True miss more] True more "1.prems" by simp
        finally show ?thesis
          using miss True d window by (simp add: take_Suc_conv_app_nth)
      qed
    qed
  qed
qed

lemma deregister_callback_eq:
  "deregister_callback cid s =
     (if cid \<in> m_id ` set (take (Suc INT_MAX) (m_callbacks s))
      then Inr (True, s\<lparr>m_callbacks := erase_first cid (m_callbacks s)\<rparr>)
      else if length (m_callbacks s) \<le> INT_MAX then Inr (False, s)
      else Inl UndefinedBehaviour)"
  by (simp add: deregister_callback_def deregister_loop_from)

lemma erase_first_absent: "cid \<notin> m_id ` set cbs \<Longrightarrow> erase_first cid cbs = cbs"
  by (induction cbs) auto

lemma deregister_callback_small:
  assumes "length (m_callbacks s) \<le> INT_MAX"
  shows "deregister_callback cid s =
     Inr (cid \<in> m_id ` set (m_callbacks s), s\<lparr>m_callbacks := erase_first cid (m_callbacks s)\<rparr>)"
  using assms by (simp add: deregister_callback_eq erase_first_absent)

lemma deregister_callback_Inr:
  assumes "deregister_callback cid s = Inr (found, s')"
  shows "s' = s\<lparr>m_callbacks := erase_first cid (m_callbacks s)\<rparr>"
  using assms by (auto simp add: deregister_callback_eq erase_first_absent split: if_splits dest: in_set_takeD)

lemma erase_first_split:
  "cid \<in> m_id ` set cbs \<Longrightarrow>
   \<exists>pre e post. cbs = pre @ e # post \<and> m_id e = cid \<and> cid \<notin> m_id ` set pre
      \<and> erase_first cid cbs = pre @ post"
proof (induction cbs)
  case Nil
  then show ?case by simp
next
  case (Cons c cbs)
  show ?case
  proof (cases "m_id c = cid")
    case True
    then have "c # cbs = [] @ c # cbs \<and> m_id c = cid \<and> cid \<notin> m_id ` set []
       \<and> erase_first cid (c # cbs) = [] @ cbs" by simp
    then show ?thesis by blast
  next
    case False
    with Cons.prems have "cid \<in> m_id ` set cbs" by auto
    from Cons.IH [OF this] obtain pre e post where
      h: "cbs = pre @ e # post" "m_id e = cid" "cid \<notin> m_id ` set pre"
         "erase_first cid cbs = pre @ post" by blast
    with False have "c # cbs = (c # pre) @ e # post \<and> m_id e = cid \<and> cid \<notin> m_id ` set (c # pre)
       \<and> erase_first cid (c # cbs) = (c # pre) @ post" by auto
    then show ?thesis by blast
  qed
qed

lemma subseq_erase_first: "subseq (erase_first cid cbs) cbs"
  by (induction cbs) auto

lemma subseq_distinct: "subseq xs ys \<Longrightarrow> distinct ys \<Longrightarrow> distinct xs"
proof (induction rule: list_emb.induct)
  case (list_emb_Cons2 x y xs ys)
  then show ?case using list_emb_set [of "(=)" xs ys] by auto
qed auto

lemma subseq_set_subset: "subseq xs ys \<Longrightarrow> set xs \<subseteq> set ys"
  using list_emb_set [of "(=)" xs ys] by auto

lemma invokeCallbacks_loop_foldl:
  "invokeCallbacks_loop cbs a w = foldl (\<lambda>w' callback. snd (m_callback callback a w')) w cbs"
  by (induction cbs arbitrary: w) (simp_all add: Callback_call_def)

lemma Callbacks_call_loop_eq:
  "Callbacks_call_loop cbs a w = invokeCallbacks_loop cbs a w"
  by (induction cbs arbitrary: w) (simp_all split: prod.splits)








lemma m_callbacks_register_all:
  "map m_callback (m_callbacks (register_all fs s)) = map m_callback (m_callbacks s) @ fs"
  unfolding register_all_def
  by (induction fs arbitrary: s) (simp_all add: register_callback_eq)

lemma foldl_logging:
  "foldl (\<lambda>w' f. snd (f a w')) log (map (\<lambda>(tag, result). logging_callback tag result) tagged) =
     log @ map (\<lambda>(tag, result). (tag, a)) tagged"
  by (induction tagged arbitrary: log) (auto simp add: logging_callback_def)

lemma invokeCallbacks_loop_callables:
  "invokeCallbacks_loop cbs a w = foldl (\<lambda>w' f. snd (f a w')) w (map m_callback cbs)"
  by (induction cbs arbitrary: w) (simp_all add: Callback_call_def)

lemma nat_mod_id_space_inj:
  fixes x y :: nat
  assumes "1 \<le> x" "x \<le> 2 ^ 32" "1 \<le> y" "y \<le> 2 ^ 32" "x mod 2 ^ 32 = y mod 2 ^ 32"
  shows "x = y"
proof (cases "x = 2 ^ 32")
  case True
  with assms(5) have "y mod 2 ^ 32 = 0" by simp
  with assms(3,4) have "y = 2 ^ 32"
    by (metis le_neq_implies_less mod_less not_one_le_zero)
  with True show ?thesis by simp
next
  case False
  with assms(2) have x: "x < 2 ^ 32" by simp
  then have "y mod 2 ^ 32 = x" using assms(5) by simp
  with assms(1,3,4) show ?thesis
    by (metis le_neq_implies_less mod_less mod_self not_one_le_zero)
qed

lemma word_of_nat_neq_1:
  assumes "2 \<le> n" "n \<le> 2 ^ 32"
  shows "(word_of_nat n :: int32) \<noteq> 1"
proof
  assume "(word_of_nat n :: int32) = 1"
  then have "(word_of_nat n :: int32) = word_of_nat 1" by simp
  then have "n mod 2 ^ 32 = 1 mod 2 ^ 32"
    unfolding word_of_nat_eq_iff by (simp add: take_bit_eq_mod)
  with assms nat_mod_id_space_inj [of n 1] show False by simp
qed

lemma word_of_nat_neq_0:
  assumes "1 \<le> n" "n < 2 ^ 32"
  shows "(word_of_nat n :: int32) \<noteq> 0"
proof
  assume "(word_of_nat n :: int32) = 0"
  then have "(word_of_nat n :: int32) = word_of_nat 0" by simp
  then have "n mod 2 ^ 32 = 0"
    unfolding word_of_nat_eq_iff by (simp add: take_bit_eq_mod)
  with assms show False by simp
qed

lemma register_all_snoc:
  "register_all (fs @ [f]) s = snd (register_callback f (register_all fs s))"
  by (simp add: register_all_def)

lemma register_all_ids:
  "map m_id (m_callbacks (register_all fs s)) =
     map m_id (m_callbacks s) @
     map (\<lambda>k. m_lastAssignedCallback_ID s + word_of_nat (Suc k)) [0..<length fs]
   \<and> m_lastAssignedCallback_ID (register_all fs s) =
       m_lastAssignedCallback_ID s + word_of_nat (length fs)"
proof (induction fs rule: rev_induct)
  case Nil
  then show ?case by (simp add: register_all_def)
next
  case (snoc f fs)
  then show ?case
    by (simp add: register_all_snoc register_callback_eq add.assoc add.commute)
qed

lemma distinct_issued:
  assumes "n \<le> 2 ^ 32"
  shows "distinct (map (\<lambda>k. c + word_of_nat (Suc k)) [0..<n] :: int32 list)"
proof -
  have "inj_on (\<lambda>k. c + word_of_nat (Suc k) :: int32) {0..<n}"
  proof (rule inj_onI)
    fix x y assume "x \<in> {0..<n}" "y \<in> {0..<n}"
      and "c + (word_of_nat (Suc x) :: int32) = c + word_of_nat (Suc y)"
    then have "x < n" "y < n" "(word_of_nat (Suc x) :: int32) = word_of_nat (Suc y)"
      by simp_all
    then have "1 \<le> Suc x" "Suc x \<le> 2 ^ 32" "1 \<le> Suc y" "Suc y \<le> 2 ^ 32"
      "Suc x mod 2 ^ 32 = Suc y mod 2 ^ 32"
      using assms
      by (simp_all only: word_of_nat_eq_iff take_bit_eq_mod, simp_all)
    then have "Suc x = Suc y" by (rule nat_mod_id_space_inj)
    then show "x = y" by simp
  qed
  then show ?thesis by (simp add: distinct_map)
qed

section \<open>Sessions\<close>

lemma run_from_append:
  "run_from h (xs @ ys) =
     (case run_from h xs of Inl e \<Rightarrow> Inl e | Inr h' \<Rightarrow> run_from h' ys)"
  by (induction xs arbitrary: h) (simp_all split: sum.splits)

lemma run_Nil:
  "run c w [] = Inr \<lparr>registry = Callbacks_ctor c, world = w, returned = []\<rparr>"
  by (simp add: run_def)

lemma run_snoc:
  "run c w (ops @ [x]) = (case run c w ops of Inl e \<Rightarrow> Inl e | Inr h \<Rightarrow> step h x)"
  by (simp add: run_def run_from_append split: sum.splits)

lemma run_snoc_Inr:
  assumes "run c w (ops @ [x]) = Inr h'"
  obtains h where "run c w ops = Inr h" "step h x = Inr h'"
  using assms by (auto simp add: run_snoc split: sum.splits)

lemma registrations_snoc:
  "registrations (ops @ [x]) = registrations ops + (if is_Register x then 1 else 0)"
  by (simp add: registrations_def)

lemma step_effect:
  assumes "step h x = Inr h'"
  shows "returned h' = returned h @
           (if is_Register x then [m_lastAssignedCallback_ID (registry h) + 1] else [])"
    and "m_lastAssignedCallback_ID (registry h') =
           m_lastAssignedCallback_ID (registry h) + (if is_Register x then 1 else 0)"
    and "subseq (map m_id (m_callbacks (registry h')))
           (map m_id (m_callbacks (registry h)) @
             (if is_Register x then [m_lastAssignedCallback_ID (registry h) + 1] else []))"
proof -
  have "returned h' = returned h @
           (if is_Register x then [m_lastAssignedCallback_ID (registry h) + 1] else [])
    \<and> m_lastAssignedCallback_ID (registry h') =
           m_lastAssignedCallback_ID (registry h) + (if is_Register x then 1 else 0)
    \<and> subseq (map m_id (m_callbacks (registry h')))
           (map m_id (m_callbacks (registry h)) @
             (if is_Register x then [m_lastAssignedCallback_ID (registry h) + 1] else []))"
  proof (cases x)
    case (Register f)
    with assms show ?thesis by (auto simp add: register_callback_eq)
  next
    case (Deregister cid)
    with assms obtain found s' where
      d: "deregister_callback cid (registry h) = Inr (found, s')" and h': "h' = h\<lparr>registry := s'\<rparr>"
      by (auto split: sum.splits)
    from deregister_callback_Inr [OF d]
    have s': "s' = (registry h)\<lparr>m_callbacks := erase_first cid (m_callbacks (registry h))\<rparr>" .
    have "subseq (map m_id (erase_first cid (m_callbacks (registry h))))
            (map m_id (m_callbacks (registry h)))"
      by (rule subseq_map) (rule subseq_erase_first)
    with Deregister h' s' show ?thesis by simp
  next
    case DeregisterAll
    with assms show ?thesis by (auto simp add: deregister_all_callbacks_def)
  next
    case (Invoke g)
    with assms show ?thesis by (auto split: sum.splits)
  qed
  then show "returned h' = returned h @
           (if is_Register x then [m_lastAssignedCallback_ID (registry h) + 1] else [])"
    and "m_lastAssignedCallback_ID (registry h') =
           m_lastAssignedCallback_ID (registry h) + (if is_Register x then 1 else 0)"
    and "subseq (map m_id (m_callbacks (registry h')))
           (map m_id (m_callbacks (registry h)) @
             (if is_Register x then [m_lastAssignedCallback_ID (registry h) + 1] else []))"
    by blast+
qed

lemma run_returned:
  "run c w ops = Inr h \<Longrightarrow>
   returned h = map (\<lambda>k. c + word_of_nat (Suc k)) [0..<registrations ops]
   \<and> m_lastAssignedCallback_ID (registry h) = c + word_of_nat (registrations ops)"
proof (induction ops arbitrary: h rule: rev_induct)
  case Nil
  then show ?case by (auto simp add: run_Nil registrations_def Callbacks_ctor_def)
next
  case (snoc x ops)
  from snoc.prems obtain h0 where r: "run c w ops = Inr h0" and s: "step h0 x = Inr h"
    by (rule run_snoc_Inr)
  from snoc.IH [OF r] step_effect(1,2) [OF s] show ?case
    by (simp add: registrations_snoc add.assoc add.commute)
qed

lemma run_subseq:
  "run c w ops = Inr h \<Longrightarrow>
   subseq (map m_id (m_callbacks (registry h))) (returned h)"
proof (induction ops arbitrary: h rule: rev_induct)
  case Nil
  then show ?case by (auto simp add: run_Nil Callbacks_ctor_def)
next
  case (snoc x ops)
  from snoc.prems obtain h0 where r: "run c w ops = Inr h0" and s: "step h0 x = Inr h"
    by (rule run_snoc_Inr)
  let ?new = "if is_Register x then [m_lastAssignedCallback_ID (registry h0) + 1] else []"
  have "subseq (map m_id (m_callbacks (registry h0)) @ ?new) (returned h0 @ ?new)"
    using snoc.IH [OF r] by (intro list_emb_append_mono) simp_all
  with step_effect(3) [OF s]
  have "subseq (map m_id (m_callbacks (registry h))) (returned h0 @ ?new)"
    by (rule subseq_order.trans)
  with step_effect(1) [OF s] show ?case by simp
qed

lemma run_distinct:
  assumes "run c w ops = Inr h" and "registrations ops \<le> 2 ^ 32"
  shows "distinct (returned h)"
    and "distinct (map m_id (m_callbacks (registry h)))"
proof -
  show d: "distinct (returned h)"
    using run_returned [OF assms(1)] distinct_issued [OF assms(2), of c] by simp
  show "distinct (map m_id (m_callbacks (registry h)))"
    using run_subseq [OF assms(1)] d by (rule subseq_distinct)
qed

lemma run_length:
  "run c w ops = Inr h \<Longrightarrow> length (m_callbacks (registry h)) \<le> registrations ops"
proof -
  assume r: "run c w ops = Inr h"
  have "length (map m_id (m_callbacks (registry h))) \<le> length (returned h)"
    using run_subseq [OF r] by (rule list_emb_length)
  with run_returned [OF r] show ?thesis by simp
qed

section \<open>Concrete registries and sessions\<close>

lemma run_snoc2:
  "run c w (ops @ [x, y]) =
     (case run c w ops of Inl e \<Rightarrow> Inl e
      | Inr h \<Rightarrow> (case step h x of Inl e \<Rightarrow> Inl e | Inr h1 \<Rightarrow> step h1 y))"
  by (simp add: run_def run_from_append split: sum.splits)

lemma churn_Suc: "churn (Suc n) = churn n @ [Register noop, Deregister (word_of_nat (n + 2))]"
  by (simp add: churn_def)

lemma run_churn:
  "n < 2 ^ 32 \<Longrightarrow>
   \<exists>h. run 0 () (Register noop # churn n) = Inr h \<and>
       registry h = \<lparr>m_callbacks = [\<lparr>m_id = 1, m_callback = noop\<rparr>],
                     m_lastAssignedCallback_ID = word_of_nat (Suc n)\<rparr>"
proof (induction n)
  case 0
  then show ?case
    by (simp add: churn_def run_def register_callback_eq Callbacks_ctor_def)
next
  case (Suc n)
  let ?fresh = "word_of_nat (n + 2) :: int32"
  from Suc obtain h where r: "run 0 () (Register noop # churn n) = Inr h"
    and IH: "registry h = \<lparr>m_callbacks = [\<lparr>m_id = 1, m_callback = noop\<rparr>],
                           m_lastAssignedCallback_ID = word_of_nat (Suc n)\<rparr>"
    by auto
  have ne: "?fresh \<noteq> 1"
    using Suc.prems by (intro word_of_nat_neq_1) simp_all
  have fresh: "(word_of_nat (Suc n) :: int32) + 1 = ?fresh" by simp
  let ?h1 = "h\<lparr>registry := \<lparr>m_callbacks = [\<lparr>m_id = 1, m_callback = noop\<rparr>,
                                               \<lparr>m_id = ?fresh, m_callback = noop\<rparr>],
                               m_lastAssignedCallback_ID = ?fresh\<rparr>,
               returned := returned h @ [?fresh]\<rparr>"
  have reg: "step h (Register noop) = Inr ?h1"
    by (simp add: register_callback_eq IH fresh del: of_nat_Suc of_nat_add)
  have small: "length (m_callbacks (registry ?h1)) \<le> INT_MAX"
    by (simp add: INT_MAX_def)
  let ?h2 = "?h1\<lparr>registry := \<lparr>m_callbacks = [\<lparr>m_id = 1, m_callback = noop\<rparr>],
                                 m_lastAssignedCallback_ID = ?fresh\<rparr>\<rparr>"
  have dereg: "step ?h1 (Deregister ?fresh) = Inr ?h2"
    using ne ne [symmetric]
    by (simp only: step.simps deregister_callback_small [OF small]) simp
  have "Register noop # churn (Suc n) =
        (Register noop # churn n) @ [Register noop, Deregister ?fresh]"
    by (simp add: churn_Suc)
  then have "run 0 () (Register noop # churn (Suc n)) = Inr ?h2"
    by (simp only: run_snoc2 r reg dereg sum.case)
  moreover have "registry ?h2 = \<lparr>m_callbacks = [\<lparr>m_id = 1, m_callback = noop\<rparr>],
                                 m_lastAssignedCallback_ID = word_of_nat (Suc (Suc n))\<rparr>"
    by simp
  ultimately show ?case by blast
qed

lemma registry_after_churn:
  "n < 2 ^ 32 \<Longrightarrow>
   registry_after 0 () (Register noop # churn n) =
     Inr \<lparr>m_callbacks = [\<lparr>m_id = 1, m_callback = noop\<rparr>],
          m_lastAssignedCallback_ID = word_of_nat (Suc n)\<rparr>"
  using run_churn [of n] by (auto simp add: registry_after_def)

lemma run_registers:
  "\<exists>h. run c w (map Register fs) = Inr h \<and> registry h = register_all fs (Callbacks_ctor c)"
proof (induction fs rule: rev_induct)
  case Nil
  then show ?case by (simp add: run_Nil register_all_def)
next
  case (snoc f fs)
  then obtain h where "run c w (map Register fs) = Inr h"
    "registry h = register_all fs (Callbacks_ctor c)" by blast
  then show ?case
    by (simp add: run_snoc register_all_snoc split: prod.splits)
qed

lemma crowd_ids:
  "map m_id (m_callbacks (crowd n)) = map (\<lambda>k. word_of_nat (Suc k)) [0..<n]"
  using register_all_ids [of "replicate n noop" "Callbacks_ctor 0"]
  by (simp add: crowd_def Callbacks_ctor_def)

lemma crowd_length: "length (m_callbacks (crowd n)) = n"
  using arg_cong [OF crowd_ids, of length n] by simp

lemma crowd_absent:
  assumes "n < 2 ^ 32"
  shows "0 \<notin> m_id ` set (m_callbacks (crowd n))"
proof
  assume "0 \<in> m_id ` set (m_callbacks (crowd n))"
  then have "0 \<in> set (map m_id (m_callbacks (crowd n)))" by simp
  then obtain k where "k < n" "(word_of_nat (Suc k) :: int32) = 0"
    unfolding crowd_ids by auto
  moreover from \<open>k < n\<close> assms have "(word_of_nat (Suc k) :: int32) \<noteq> 0"
    by (intro word_of_nat_neq_0) simp_all
  ultimately show False by simp
qed

lemma deregister_absent_in_crowd:
  assumes "INT_MAX < n" "n < 2 ^ 32"
  shows "deregister_callback 0 (crowd n) = Inl UndefinedBehaviour"
proof -
  have "0 \<notin> m_id ` set (take (Suc INT_MAX) (m_callbacks (crowd n)))"
    using crowd_absent [OF assms(2)] by (auto dest: in_set_takeD)
  moreover have "\<not> length (m_callbacks (crowd n)) \<le> INT_MAX"
    using assms(1) by (simp add: crowd_length)
  ultimately show ?thesis by (simp add: deregister_callback_eq)
qed

lemma last_of_crowd:
  assumes "n < 2 ^ 32"
  shows "word_of_nat (Suc n) \<in> m_id ` set (m_callbacks (crowd (Suc n)))"
    and "word_of_nat (Suc n) \<notin> m_id ` set (take n (m_callbacks (crowd (Suc n))))"
proof -
  let ?f = "\<lambda>k. word_of_nat (Suc k) :: int32"
  have ids: "map m_id (m_callbacks (crowd (Suc n))) = map ?f [0..<n] @ [?f n]"
    by (simp add: crowd_ids)
  have "m_id ` set (m_callbacks (crowd (Suc n))) = set (map m_id (m_callbacks (crowd (Suc n))))"
    by simp
  then show "word_of_nat (Suc n) \<in> m_id ` set (m_callbacks (crowd (Suc n)))"
    by (simp only: ids) simp
  have "distinct (map (\<lambda>k. 0 + word_of_nat (Suc k)) [0..<Suc n] :: int32 list)"
    using assms by (intro distinct_issued) simp
  then have "?f n \<notin> set (map ?f [0..<n])" by simp
  moreover have "m_id ` set (take n (m_callbacks (crowd (Suc n)))) =
        set (take n (map m_id (m_callbacks (crowd (Suc n)))))"
    by (simp add: take_map)
  ultimately show "word_of_nat (Suc n) \<notin> m_id ` set (take n (m_callbacks (crowd (Suc n))))"
    by (simp only: ids) simp
qed

lemma deregister_last_of_crowd:
  assumes "INT_MAX < n" "n < 2 ^ 32"
  shows "deregister_callback (word_of_nat (Suc n)) (crowd (Suc n)) = Inl UndefinedBehaviour"
proof -
  from assms(1) have "set (take (Suc INT_MAX) (m_callbacks (crowd (Suc n))))
        \<subseteq> set (take n (m_callbacks (crowd (Suc n))))"
    by (intro set_take_subset_set_take) simp
  with last_of_crowd(2) [OF assms(2)]
  have "word_of_nat (Suc n) \<notin> m_id ` set (take (Suc INT_MAX) (m_callbacks (crowd (Suc n))))"
    by blast
  moreover have "\<not> length (m_callbacks (crowd (Suc n))) \<le> INT_MAX"
    using assms(1) by (simp add: crowd_length)
  ultimately show ?thesis by (simp only: deregister_callback_eq if_False)
qed

lemma erase_first_append_fresh:
  "cid \<notin> m_id ` set es \<Longrightarrow> m_id e = cid \<Longrightarrow> erase_first cid (es @ [e]) = es"
  by (induction es) auto

lemma run_defined:
  assumes "registrations ops < 2 ^ 31"
    and "\<And>f s w'. Invoke f \<in> set ops \<Longrightarrow> f s w' \<noteq> Inl UndefinedBehaviour"
  shows "\<exists>h. run c w ops = Inr h"
  using assms
proof (induction ops rule: rev_induct)
  case Nil
  then show ?case by (simp add: run_Nil)
next
  case (snoc x ops)
  then obtain h where r: "run c w ops = Inr h"
    by (auto simp add: registrations_snoc split: if_splits)
  from run_length [OF r] snoc.prems(1)
  have small: "length (m_callbacks (registry h)) \<le> INT_MAX"
    by (simp add: registrations_snoc INT_MAX_def split: if_splits)
  have "\<exists>h'. step h x = Inr h'"
  proof (cases x)
    case (Invoke f)
    have "x \<in> set (ops @ [x])" by simp
    with Invoke have "f (registry h) (world h) \<noteq> Inl UndefinedBehaviour"
      by (intro snoc.prems(2)) simp
    then have "\<exists>w'. f (registry h) (world h) = Inr w'"
    proof (cases "f (registry h) (world h)")
      case (Inl a)
      moreover assume "f (registry h) (world h) \<noteq> Inl UndefinedBehaviour"
      ultimately show ?thesis by (cases a) simp
    next
      case (Inr w')
      then show ?thesis by blast
    qed
    with Invoke show ?thesis by auto
  qed (auto simp add: deregister_callback_small [OF small] split: prod.splits)
  with r show ?case by (auto simp add: run_snoc)
qed

lemma run_crowd_then_deregister:
  assumes "INT_MAX < n" "n < 2 ^ 32"
  shows "run 0 () (replicate n (Register noop) @ [Deregister 0]) = Inl UndefinedBehaviour"
proof -
  have "replicate n (Register noop) = map Register (replicate n noop)" by simp
  moreover obtain h where "run 0 () (map Register (replicate n noop)) = Inr h"
    "registry h = crowd n"
    using run_registers [of 0 "()" "replicate n noop"] by (auto simp add: crowd_def)
  ultimately show ?thesis
    using deregister_absent_in_crowd [OF assms]
    by (simp only: run_snoc sum.case step.simps)
qed

lemma registrations_short_session: "registrations short_session = 3"
  by (simp add: short_session_def registrations_def)

lemma run_short_session: "run 0 () short_session = Inr short_session_end"
  by (simp add: short_session_def short_session_end_def run_def register_callback_eq
      deregister_callback_small INT_MAX_def Callbacks_ctor_def invoke_all_noops_def
      invokeCallbacks_def)

lemma m_callbacks_three_noops:
  "m_callbacks three_noops =
     [\<lparr>m_id = 1, m_callback = noop\<rparr>, \<lparr>m_id = 2, m_callback = noop\<rparr>,
      \<lparr>m_id = 3, m_callback = noop\<rparr>]"
  by (simp add: three_noops_def register_all_def register_callback_eq Callbacks_ctor_def)





lemma registry_about_to_wrap:
  "registry_after 0 () (Register noop # churn 4294967294) =
     Inr \<lparr>m_callbacks = [\<lparr>m_id = 1, m_callback = noop\<rparr>], m_lastAssignedCallback_ID = - 1\<rparr>"
proof -
  have "registry_after 0 () (Register noop # churn 4294967294) =
     Inr \<lparr>m_callbacks = [\<lparr>m_id = 1, m_callback = noop\<rparr>],
          m_lastAssignedCallback_ID = word_of_nat (Suc 4294967294)\<rparr>"
    by (rule registry_after_churn) simp
  then show ?thesis by simp
qed

lemma registry_wrapped:
  "registry_after 0 () (Register noop # churn 4294967295) =
     Inr \<lparr>m_callbacks = [\<lparr>m_id = 1, m_callback = noop\<rparr>], m_lastAssignedCallback_ID = 0\<rparr>"
proof -
  have "registry_after 0 () (Register noop # churn 4294967295) =
     Inr \<lparr>m_callbacks = [\<lparr>m_id = 1, m_callback = noop\<rparr>],
          m_lastAssignedCallback_ID = word_of_nat (Suc 4294967295)\<rparr>"
    by (rule registry_after_churn) simp
  then show ?thesis by simp
qed

lemma registry_wrapped_then_register:
  "registry_after 0 () (Register noop # churn 4294967295 @ [Register noop]) =
     Inr \<lparr>m_callbacks = [\<lparr>m_id = 1, m_callback = noop\<rparr>, \<lparr>m_id = 1, m_callback = noop\<rparr>],
          m_lastAssignedCallback_ID = 1\<rparr>"
proof -
  obtain h where r: "run 0 () (Register noop # churn 4294967295) = Inr h"
    and h: "registry h = \<lparr>m_callbacks = [\<lparr>m_id = 1, m_callback = noop\<rparr>],
                          m_lastAssignedCallback_ID = word_of_nat (Suc 4294967295)\<rparr>"
    using run_churn [of 4294967295] by auto
  have "Register noop # churn 4294967295 @ [Register noop] =
        (Register noop # churn 4294967295) @ [Register noop]" by simp
  then have "run 0 () (Register noop # churn 4294967295 @ [Register noop]) =
        step h (Register noop)"
    by (simp only: run_snoc r sum.case)
  then show ?thesis
    by (simp add: registry_after_def register_callback_eq h)
qed

section \<open>Registration\<close>

text \<open>
  Claim C1, as the code has it. On every registry \<open>register_callback\<close> appends one new
  entry at the end of the sequence, gives it the counter plus one (wrapping around in 32
  bits), stores that as the new counter and returns it. The call returns 0 exactly when
  the counter holds \<open>-1\<close> before it. Which id a new registry issues first depends on
  the value its counter starts with, which the constructor does not set; nothing is
  said about it here.
\<close>

theorem register_callback_appends_with_next_id:
  "register_callback callback s =
     (m_lastAssignedCallback_ID s + 1,
      \<lparr>m_callbacks = m_callbacks s @
         [\<lparr>m_id = m_lastAssignedCallback_ID s + 1, m_callback = callback\<rparr>],
       m_lastAssignedCallback_ID = m_lastAssignedCallback_ID s + 1\<rparr>)
   \<and> (fst (register_callback callback s) = 0) = (m_lastAssignedCallback_ID s = - 1)"
  by (simp add: register_callback_eq eq_neg_iff_add_eq_0)

text \<open>
  Claim C1 as stated says that no register call ever returns 0. In a registry whose
  counter started at 0, after one registration and \<open>2 ^ 32 - 2\<close> rounds of registering
  and deregistering the counter holds \<open>-1\<close>, and the next registration returns 0.
\<close>

theorem register_callback_returns_zero_on_wrap:
  "registry_after 0 () (Register noop # churn 4294967294) =
     Inr \<lparr>m_callbacks = [\<lparr>m_id = 1, m_callback = noop\<rparr>], m_lastAssignedCallback_ID = - 1\<rparr>
   \<and> fst (register_callback noop
          \<lparr>m_callbacks = [\<lparr>m_id = 1, m_callback = noop\<rparr>], m_lastAssignedCallback_ID = - 1\<rparr>) = 0"
  by (simp add: registry_about_to_wrap register_callback_eq)

section \<open>Identity of entries\<close>

text \<open>
  Claim C2, as the code has it. In the life of one registry, whatever value its counter
  started with and whatever the operations (registering, deregistering, removing
  everything, any invocation), as long as every operation had defined behaviour and at
  most \<open>2 ^ 32\<close> registrations have been made: the registered entries have pairwise
  distinct ids; the ids returned by \<open>register_callback\<close> are pairwise distinct, so an id
  that was removed is not issued again; and every registered id is one that was
  returned. (By \<open>run_defined\<close> a session of fewer than \<open>2 ^ 31\<close> registrations whose
  invocations are defined has defined behaviour throughout.)
\<close>

theorem ids_distinct_and_never_reissued_before_wrap:
  "run indeterminate w ops = Inr h \<Longrightarrow> registrations ops \<le> 2 ^ 32 \<Longrightarrow>
   distinct (map m_id (m_callbacks (registry h)))
   \<and> distinct (returned h)
   \<and> set (map m_id (m_callbacks (registry h))) \<subseteq> set (returned h)"
proof (intro conjI)
  assume r: "run indeterminate w ops = Inr h" and b: "registrations ops \<le> 2 ^ 32"
  show "distinct (map m_id (m_callbacks (registry h)))"
    using r b by (rule run_distinct(2))
  show "distinct (returned h)"
    using r b by (rule run_distinct(1))
  show "set (map m_id (m_callbacks (registry h))) \<subseteq> set (returned h)"
    using run_subseq [OF r] by (rule subseq_set_subset)
qed

text \<open>An instance: a session of three registrations, a deregistration and an invocation.\<close>

theorem ids_distinct_and_never_reissued_before_wrap_witness:
  "run 0 () short_session = Inr short_session_end
   \<and> registrations short_session \<le> 2 ^ 32
   \<and> distinct (map m_id (m_callbacks (registry short_session_end)))
   \<and> distinct (returned short_session_end)
   \<and> set (map m_id (m_callbacks (registry short_session_end)))
        \<subseteq> set (returned short_session_end)"
proof -
  have r: "run 0 () short_session = Inr short_session_end"
    by (rule run_short_session)
  have b: "registrations short_session \<le> 2 ^ 32"
    by (simp add: registrations_short_session)
  from ids_distinct_and_never_reissued_before_wrap [OF r b] r b
  show ?thesis by (intro conjI) (erule conjE | assumption)+
qed

text \<open>
  Claim C2 as stated has no bound. The entry registered first keeps id 1; after
  \<open>2 ^ 32 - 1\<close> rounds of registering and deregistering the counter is back at 0, and
  the next registration is handed id 1 again: two registered entries share an id. And
  on a registry of \<open>2 ^ 31\<close> entries a deregistration that finds no match among the
  first \<open>2 ^ 31\<close> increments its index past \<open>INT_MAX\<close>: the operation has no defined
  outcome, so it preserves nothing.
\<close>

theorem ids_repeat_after_wrap:
  "registry_after 0 () (Register noop # churn 4294967295 @ [Register noop]) =
     Inr \<lparr>m_callbacks = [\<lparr>m_id = 1, m_callback = noop\<rparr>, \<lparr>m_id = 1, m_callback = noop\<rparr>],
          m_lastAssignedCallback_ID = 1\<rparr>
   \<and> \<not> distinct (map m_id [\<lparr>m_id = 1, m_callback = noop\<rparr>, \<lparr>m_id = 1, m_callback = noop\<rparr>])
   \<and> run 0 () (replicate 2147483648 (Register noop) @ [Deregister 0]) = Inl UndefinedBehaviour"
proof (intro conjI)
  show "registry_after 0 () (Register noop # churn 4294967295 @ [Register noop]) =
     Inr \<lparr>m_callbacks = [\<lparr>m_id = 1, m_callback = noop\<rparr>, \<lparr>m_id = 1, m_callback = noop\<rparr>],
          m_lastAssignedCallback_ID = 1\<rparr>"
    by (rule registry_wrapped_then_register)
  show "\<not> distinct (map m_id [\<lparr>m_id = 1, m_callback = noop\<rparr>, \<lparr>m_id = 1, m_callback = noop\<rparr>])"
    by simp
  show "run 0 () (replicate 2147483648 (Register noop) @ [Deregister 0]) = Inl UndefinedBehaviour"
    by (rule run_crowd_then_deregister) (simp_all add: INT_MAX_def)
qed

section \<open>Deregistration\<close>

text \<open>
  Claim C6, as the code has it. On a registry of fewer than \<open>2 ^ 31\<close> entries
  \<open>deregister_callback\<close> returns a boolean, \<open>true\<close> exactly when some registered entry
  carries the id. Deregistering the id that a registration just returned gives \<open>true\<close>.
  Deregistering it a second time gives \<open>false\<close> provided the registry has seen fewer
  than \<open>2 ^ 32\<close> registrations before that one, so that no other entry carries the same
  id. Deregistering an id that \<open>register_callback\<close> never returned on this registry
  gives \<open>false\<close>.
\<close>

theorem deregister_callback_reports_presence:
  "(length (m_callbacks s) < 2 ^ 31 \<longrightarrow>
      (\<exists>s'. deregister_callback callbackID s =
              Inr (callbackID \<in> m_id ` set (m_callbacks s), s')))
   \<and> (length (m_callbacks s) < 2 ^ 31 - 1 \<longrightarrow>
      (\<exists>s'. deregister_callback (fst (register_callback callback s))
              (snd (register_callback callback s)) = Inr (True, s')))
   \<and> (run indeterminate w ops = Inr h \<and> registrations ops < 2 ^ 32
       \<and> length (m_callbacks (registry h)) < 2 ^ 31 - 1
       \<and> register_callback callback (registry h) = (newID, s1) \<longrightarrow>
      deregister_callback newID s1 =
        Inr (True, s1\<lparr>m_callbacks := m_callbacks (registry h)\<rparr>)
      \<and> deregister_callback newID (s1\<lparr>m_callbacks := m_callbacks (registry h)\<rparr>) =
        Inr (False, s1\<lparr>m_callbacks := m_callbacks (registry h)\<rparr>))
   \<and> (run indeterminate w ops = Inr h \<and> length (m_callbacks (registry h)) < 2 ^ 31
       \<and> callbackID \<notin> set (returned h) \<longrightarrow>
      deregister_callback callbackID (registry h) = Inr (False, registry h))"
proof (intro conjI impI)
  assume "length (m_callbacks s) < 2 ^ 31"
  then have "length (m_callbacks s) \<le> INT_MAX" by (simp add: INT_MAX_def)
  then show "\<exists>s'. deregister_callback callbackID s =
              Inr (callbackID \<in> m_id ` set (m_callbacks s), s')"
    by (simp add: deregister_callback_small)
next
  assume "length (m_callbacks s) < 2 ^ 31 - 1"
  then have "length (m_callbacks (snd (register_callback callback s))) \<le> INT_MAX"
    by (simp add: INT_MAX_def register_callback_eq)
  then show "\<exists>s'. deregister_callback (fst (register_callback callback s))
              (snd (register_callback callback s)) = Inr (True, s')"
    by (simp add: deregister_callback_small) (simp add: register_callback_eq)
next
  assume a: "run indeterminate w ops = Inr h \<and> registrations ops < 2 ^ 32
       \<and> length (m_callbacks (registry h)) < 2 ^ 31 - 1
       \<and> register_callback callback (registry h) = (newID, s1)"
  let ?es = "m_callbacks (registry h)"
  let ?new = "\<lparr>m_id = newID, m_callback = callback\<rparr>"
  from a have newID: "newID = m_lastAssignedCallback_ID (registry h) + 1"
    and s1: "s1 = \<lparr>m_callbacks = ?es @ [?new], m_lastAssignedCallback_ID = newID\<rparr>"
    by (auto simp add: register_callback_eq)
  from a have "run indeterminate w (ops @ [Register callback]) =
        Inr (h\<lparr>registry := s1, returned := returned h @ [newID]\<rparr>)"
    by (simp add: run_snoc)
  moreover from a have "registrations (ops @ [Register callback]) \<le> 2 ^ 32"
    by (simp add: registrations_snoc)
  ultimately have "distinct (map m_id (m_callbacks
        (registry (h\<lparr>registry := s1, returned := returned h @ [newID]\<rparr>))))"
    by (rule run_distinct(2))
  then have fresh: "newID \<notin> m_id ` set ?es"
    by (simp add: s1)
  from a have small1: "length (m_callbacks s1) \<le> INT_MAX"
    by (simp add: s1 INT_MAX_def)
  let ?s2 = "s1\<lparr>m_callbacks := ?es\<rparr>"
  have small2: "length (m_callbacks ?s2) \<le> INT_MAX"
    using a by (simp add: INT_MAX_def)
  have "erase_first newID (m_callbacks s1) = ?es"
    using fresh by (simp add: s1 erase_first_append_fresh)
  then show "deregister_callback newID s1 = Inr (True, ?s2)"
    by (simp add: deregister_callback_small [OF small1]) (simp add: s1)
  show "deregister_callback newID ?s2 = Inr (False, ?s2)"
    using fresh by (simp add: deregister_callback_small [OF small2] erase_first_absent)
next
  assume a: "run indeterminate w ops = Inr h \<and> length (m_callbacks (registry h)) < 2 ^ 31
       \<and> callbackID \<notin> set (returned h)"
  then have r: "run indeterminate w ops = Inr h" by simp
  from a subseq_set_subset [OF run_subseq [OF r]]
  have absent: "callbackID \<notin> m_id ` set (m_callbacks (registry h))"
    by auto
  from a have "length (m_callbacks (registry h)) \<le> INT_MAX" by (simp add: INT_MAX_def)
  then show "deregister_callback callbackID (registry h) = Inr (False, registry h)"
    using absent by (simp add: deregister_callback_small erase_first_absent)
qed

text \<open>
  An instance: three entries and id 2; the end of the short session, a fresh
  registration in it, and the unknown id 7.
\<close>

theorem deregister_callback_reports_presence_witness:
  "(\<exists>s'. deregister_callback 2 three_noops = Inr (True, s'))
   \<and> (\<exists>s'. deregister_callback (fst (register_callback noop three_noops))
              (snd (register_callback noop three_noops)) = Inr (True, s'))
   \<and> deregister_callback (fst (register_callback noop (registry short_session_end)))
         (snd (register_callback noop (registry short_session_end))) =
       Inr (True, (snd (register_callback noop (registry short_session_end)))
                    \<lparr>m_callbacks := m_callbacks (registry short_session_end)\<rparr>)
   \<and> deregister_callback (fst (register_callback noop (registry short_session_end)))
         ((snd (register_callback noop (registry short_session_end)))
            \<lparr>m_callbacks := m_callbacks (registry short_session_end)\<rparr>) =
       Inr (False, (snd (register_callback noop (registry short_session_end)))
                     \<lparr>m_callbacks := m_callbacks (registry short_session_end)\<rparr>)
   \<and> deregister_callback 7 (registry short_session_end) =
       Inr (False, registry short_session_end)"
proof -
  note inst = deregister_callback_reports_presence
    [where s = three_noops and callbackID = 2 and callback = noop and indeterminate = 0
       and w = "()" and ops = short_session and h = short_session_end
       and newID = "fst (register_callback noop (registry short_session_end))"
       and ?s1.0 = "snd (register_callback noop (registry short_session_end))"]
  note inst7 = deregister_callback_reports_presence
    [where callbackID = 7 and indeterminate = 0
       and w = "()" and ops = short_session and h = short_session_end]
  have small: "length (m_callbacks three_noops) < 2 ^ 31"
    and smaller: "length (m_callbacks three_noops) < 2 ^ 31 - 1"
    by (simp_all add: m_callbacks_three_noops)
  have present: "2 \<in> m_id ` set (m_callbacks three_noops)"
    by (simp add: m_callbacks_three_noops)
  have r: "run 0 () short_session = Inr short_session_end"
    by (rule run_short_session)
  have b: "registrations short_session < 2 ^ 32"
    by (simp add: registrations_short_session)
  have l: "length (m_callbacks (registry short_session_end)) < 2 ^ 31 - 1"
    "length (m_callbacks (registry short_session_end)) < 2 ^ 31"
    by (simp_all add: short_session_end_def)
  have unknown: "7 \<notin> set (returned short_session_end)"
    by (simp add: short_session_end_def)
  from inst small present have 1: "\<exists>s'. deregister_callback 2 three_noops = Inr (True, s')"
    by simp
  from inst smaller have 2: "\<exists>s'. deregister_callback (fst (register_callback noop three_noops))
              (snd (register_callback noop three_noops)) = Inr (True, s')"
    by blast
  from inst r b l(1) have 3: "deregister_callback (fst (register_callback noop (registry short_session_end)))
         (snd (register_callback noop (registry short_session_end))) =
       Inr (True, (snd (register_callback noop (registry short_session_end)))
                    \<lparr>m_callbacks := m_callbacks (registry short_session_end)\<rparr>)
   \<and> deregister_callback (fst (register_callback noop (registry short_session_end)))
         ((snd (register_callback noop (registry short_session_end)))
            \<lparr>m_callbacks := m_callbacks (registry short_session_end)\<rparr>) =
       Inr (False, (snd (register_callback noop (registry short_session_end)))
                     \<lparr>m_callbacks := m_callbacks (registry short_session_end)\<rparr>)"
    by simp
  from inst7 r l(2) unknown have 4: "deregister_callback 7 (registry short_session_end) =
       Inr (False, registry short_session_end)"
    by blast
  from 1 2 3 4 show ?thesis by blast
qed

text \<open>
  Claim C6 as stated is about every registry. After the counter has gone round, a
  registration returns id 1 while the first entry, which has id 1 too, is still
  registered: both deregistrations of id 1 succeed. And in a registry of \<open>2 ^ 31 + 1\<close>
  entries the id of the last entry is registered, but the scan for it increments its
  index past \<open>INT_MAX\<close>: the call has no defined result.
\<close>

theorem deregister_callback_misreports_after_wrap_and_beyond_INT_MAX:
  "registry_after 0 () (Register noop # churn 4294967295) =
     Inr \<lparr>m_callbacks = [\<lparr>m_id = 1, m_callback = noop\<rparr>], m_lastAssignedCallback_ID = 0\<rparr>
   \<and> register_callback noop
        \<lparr>m_callbacks = [\<lparr>m_id = 1, m_callback = noop\<rparr>], m_lastAssignedCallback_ID = 0\<rparr> =
       (1, \<lparr>m_callbacks = [\<lparr>m_id = 1, m_callback = noop\<rparr>, \<lparr>m_id = 1, m_callback = noop\<rparr>],
            m_lastAssignedCallback_ID = 1\<rparr>)
   \<and> deregister_callback 1
        \<lparr>m_callbacks = [\<lparr>m_id = 1, m_callback = noop\<rparr>, \<lparr>m_id = 1, m_callback = noop\<rparr>],
         m_lastAssignedCallback_ID = 1\<rparr> =
       Inr (True, \<lparr>m_callbacks = [\<lparr>m_id = 1, m_callback = noop\<rparr>],
                   m_lastAssignedCallback_ID = 1\<rparr>)
   \<and> deregister_callback 1
        \<lparr>m_callbacks = [\<lparr>m_id = 1, m_callback = noop\<rparr>], m_lastAssignedCallback_ID = 1\<rparr> =
       Inr (True, \<lparr>m_callbacks = [], m_lastAssignedCallback_ID = 1\<rparr>)
   \<and> 2147483649 \<in> m_id ` set (m_callbacks (crowd 2147483649))
   \<and> deregister_callback 2147483649 (crowd 2147483649) = Inl UndefinedBehaviour"
proof (intro conjI)
  show "registry_after 0 () (Register noop # churn 4294967295) =
     Inr \<lparr>m_callbacks = [\<lparr>m_id = 1, m_callback = noop\<rparr>], m_lastAssignedCallback_ID = 0\<rparr>"
    by (rule registry_wrapped)
  show "register_callback noop
        \<lparr>m_callbacks = [\<lparr>m_id = 1, m_callback = noop\<rparr>], m_lastAssignedCallback_ID = 0\<rparr> =
       (1, \<lparr>m_callbacks = [\<lparr>m_id = 1, m_callback = noop\<rparr>, \<lparr>m_id = 1, m_callback = noop\<rparr>],
            m_lastAssignedCallback_ID = 1\<rparr>)"
    by (simp add: register_callback_eq)
  show "deregister_callback 1
        \<lparr>m_callbacks = [\<lparr>m_id = 1, m_callback = noop\<rparr>, \<lparr>m_id = 1, m_callback = noop\<rparr>],
         m_lastAssignedCallback_ID = 1\<rparr> =
       Inr (True, \<lparr>m_callbacks = [\<lparr>m_id = 1, m_callback = noop\<rparr>],
                   m_lastAssignedCallback_ID = 1\<rparr>)"
    by (simp add: deregister_callback_small INT_MAX_def)
  show "deregister_callback 1
        \<lparr>m_callbacks = [\<lparr>m_id = 1, m_callback = noop\<rparr>], m_lastAssignedCallback_ID = 1\<rparr> =
       Inr (True, \<lparr>m_callbacks = [], m_lastAssignedCallback_ID = 1\<rparr>)"
    by (simp add: deregister_callback_small INT_MAX_def)
  have b: "INT_MAX < 2147483648" "(2147483648 :: nat) < 2 ^ 32"
    by (simp_all add: INT_MAX_def)
  from last_of_crowd(1) [OF b(2)]
  show "2147483649 \<in> m_id ` set (m_callbacks (crowd 2147483649))"
    by simp
  from deregister_last_of_crowd [OF b]
  show "deregister_callback 2147483649 (crowd 2147483649) = Inl UndefinedBehaviour"
    by simp
qed

text \<open>
  Claim C7, as the code has it. On a registry of fewer than \<open>2 ^ 31\<close> entries: when an
  entry carries the id, \<open>deregister_callback\<close> removes the first such entry and nothing
  else: the entries before it and after it stay as they are, in their order, and the
  counter is untouched. When no entry has the id, the call returns \<open>false\<close> and the
  registry is unchanged.
\<close>

theorem deregister_callback_removes_only_the_match:
  assumes "length (m_callbacks s) < 2 ^ 31"
  shows "(callbackID \<in> m_id ` set (m_callbacks s) \<longrightarrow>
      (\<exists>pre e post. m_callbacks s = pre @ e # post \<and> m_id e = callbackID
          \<and> callbackID \<notin> m_id ` set pre
          \<and> deregister_callback callbackID s = Inr (True, s\<lparr>m_callbacks := pre @ post\<rparr>)))
   \<and> (callbackID \<notin> m_id ` set (m_callbacks s) \<longrightarrow>
      deregister_callback callbackID s = Inr (False, s))"
proof (intro conjI impI)
  from assms have small: "length (m_callbacks s) \<le> INT_MAX" by (simp add: INT_MAX_def)
  assume found: "callbackID \<in> m_id ` set (m_callbacks s)"
  from erase_first_split [OF this] obtain pre e post where
    "m_callbacks s = pre @ e # post" "m_id e = callbackID" "callbackID \<notin> m_id ` set pre"
    "erase_first callbackID (m_callbacks s) = pre @ post" by blast
  with found have "m_callbacks s = pre @ e # post \<and> m_id e = callbackID
        \<and> callbackID \<notin> m_id ` set pre
        \<and> deregister_callback callbackID s = Inr (True, s\<lparr>m_callbacks := pre @ post\<rparr>)"
    by (simp add: deregister_callback_small [OF small])
  then show "\<exists>pre e post. m_callbacks s = pre @ e # post \<and> m_id e = callbackID
        \<and> callbackID \<notin> m_id ` set pre
        \<and> deregister_callback callbackID s = Inr (True, s\<lparr>m_callbacks := pre @ post\<rparr>)"
    by blast
next
  from assms have small: "length (m_callbacks s) \<le> INT_MAX" by (simp add: INT_MAX_def)
  assume "callbackID \<notin> m_id ` set (m_callbacks s)"
  then show "deregister_callback callbackID s = Inr (False, s)"
    by (simp add: deregister_callback_small [OF small] erase_first_absent)
qed

text \<open>An instance: removing id 2 from entries 1, 2, 3, and asking for the absent id 7.\<close>

theorem deregister_callback_removes_only_the_match_witness:
  "deregister_callback 2 three_noops =
     Inr (True, three_noops\<lparr>m_callbacks := [\<lparr>m_id = 1, m_callback = noop\<rparr>,
                                             \<lparr>m_id = 3, m_callback = noop\<rparr>]\<rparr>)
   \<and> deregister_callback 7 three_noops = Inr (False, three_noops)"
proof (intro conjI)
  have small: "length (m_callbacks three_noops) < 2 ^ 31"
    by (simp add: m_callbacks_three_noops)
  have "2 \<in> m_id ` set (m_callbacks three_noops)"
    by (simp add: m_callbacks_three_noops)
  with deregister_callback_removes_only_the_match [OF small, of 2]
  obtain pre e post where h: "m_callbacks three_noops = pre @ e # post" "m_id e = 2"
    "2 \<notin> m_id ` set pre"
    "deregister_callback 2 three_noops = Inr (True, three_noops\<lparr>m_callbacks := pre @ post\<rparr>)"
    by blast
  from h(1-3) have "pre = [\<lparr>m_id = 1, m_callback = noop\<rparr>] \<and> post = [\<lparr>m_id = 3, m_callback = noop\<rparr>]"
    by (auto simp add: m_callbacks_three_noops Cons_eq_append_conv)
  with h(4) show "deregister_callback 2 three_noops =
     Inr (True, three_noops\<lparr>m_callbacks := [\<lparr>m_id = 1, m_callback = noop\<rparr>,
                                             \<lparr>m_id = 3, m_callback = noop\<rparr>]\<rparr>)"
    by simp
next
  have small: "length (m_callbacks three_noops) < 2 ^ 31"
    by (simp add: m_callbacks_three_noops)
  have "7 \<notin> m_id ` set (m_callbacks three_noops)"
    by (simp add: m_callbacks_three_noops)
  with deregister_callback_removes_only_the_match [OF small, of 7]
  show "deregister_callback 7 three_noops = Inr (False, three_noops)"
    by blast
qed

text \<open>
  Claim C7 as stated is about every registry. In a registry of \<open>2 ^ 31 + 2\<close> entries
  the last entry's id is registered and is not removed, and in a registry of \<open>2 ^ 31\<close>
  entries the absent id 0 is not answered with \<open>false\<close>: in both the index is
  incremented past \<open>INT_MAX\<close> and the call has no defined outcome.
\<close>

theorem deregister_callback_undefined_beyond_INT_MAX:
  "2147483650 \<in> m_id ` set (m_callbacks (crowd 2147483650))
   \<and> deregister_callback 2147483650 (crowd 2147483650) = Inl UndefinedBehaviour
   \<and> 0 \<notin> m_id ` set (m_callbacks (crowd 2147483648))
   \<and> deregister_callback 0 (crowd 2147483648) = Inl UndefinedBehaviour"
proof (intro conjI)
  have b: "INT_MAX < 2147483649" "(2147483649 :: nat) < 2 ^ 32"
    by (simp_all add: INT_MAX_def)
  from last_of_crowd(1) [OF b(2)]
  show "2147483650 \<in> m_id ` set (m_callbacks (crowd 2147483650))"
    by simp
  from deregister_last_of_crowd [OF b]
  show "deregister_callback 2147483650 (crowd 2147483650) = Inl UndefinedBehaviour"
    by simp
  have c: "INT_MAX < 2147483648" "(2147483648 :: nat) < 2 ^ 32"
    by (simp_all add: INT_MAX_def)
  from crowd_absent [OF c(2)]
  show "0 \<notin> m_id ` set (m_callbacks (crowd 2147483648))" .
  from deregister_absent_in_crowd [OF c]
  show "deregister_callback 0 (crowd 2147483648) = Inl UndefinedBehaviour" .
qed

section \<open>Invocation of every entry\<close>

text \<open>
  For a registry whose \<open>CallbackReturnType\<close> is \<open>void\<close>, \<open>invokeCallbacks\<close> calls every
  registered entry exactly once, in registration order, with the same arguments: the
  world it leaves is the left fold of the entries' callables over the entry sequence.
  Observed from outside: when callables that log their tag and their arguments are
  registered on any registry, an invocation extends the log by what the earlier entries
  did, followed by one line per logging callable, in the order of registration, each
  with the arguments of the invocation.
\<close>

lemma invokeCallbacks_void_calls_every_entry_in_order:
  "invokeCallbacks True s arguments w =
     Inr (foldl (\<lambda>w' callback. snd (m_callback callback arguments w')) w (m_callbacks s))
   \<and> invokeCallbacks True
        (register_all (map (\<lambda>(tag, result). logging_callback tag result) tagged) logged)
        arguments log =
       Inr (invokeCallbacks_loop (m_callbacks logged) arguments log
              @ map (\<lambda>(tag, result). (tag, arguments)) tagged)"
proof
  show "invokeCallbacks True s arguments w =
     Inr (foldl (\<lambda>w' callback. snd (m_callback callback arguments w')) w (m_callbacks s))"
    by (simp add: invokeCallbacks_def invokeCallbacks_loop_foldl)
next
  let ?loggers = "map (\<lambda>(tag, result). logging_callback tag result) tagged"
  have "invokeCallbacks_loop (m_callbacks (register_all ?loggers logged)) arguments log =
        foldl (\<lambda>w' f. snd (f arguments w')) log
          (map m_callback (m_callbacks logged) @ ?loggers)"
    by (simp only: invokeCallbacks_loop_callables m_callbacks_register_all)
  also have "\<dots> = foldl (\<lambda>w' f. snd (f arguments w'))
                     (invokeCallbacks_loop (m_callbacks logged) arguments log) ?loggers"
    by (simp only: foldl_append invokeCallbacks_loop_callables)
  also have "\<dots> = invokeCallbacks_loop (m_callbacks logged) arguments log
                     @ map (\<lambda>(tag, result). (tag, arguments)) tagged"
    by (rule foldl_logging)
  finally show "invokeCallbacks True (register_all ?loggers logged) arguments log =
       Inr (invokeCallbacks_loop (m_callbacks logged) arguments log
              @ map (\<lambda>(tag, result). (tag, arguments)) tagged)"
    by (simp add: invokeCallbacks_def)
qed

text \<open>
  Claim C3 is about every registry. For a registry whose callables return a value, here
  booleans, \<open>invokeCallbacks\<close> flows off the end of a value-returning function: the call
  has undefined behaviour, and the code promises neither that every entry is called nor
  that none is called twice.
\<close>

theorem invokeCallbacks_undefined_for_value_returning_registry:
  "invokeCallbacks False boolean_handlers () 0 = Inl UndefinedBehaviour"
  by (simp add: invokeCallbacks_def)

text \<open>
  For a registry whose \<open>CallbackReturnType\<close> is \<open>void\<close>, \<open>operator()\<close> and
  \<open>invokeCallbacks\<close> do the same: the same calls in the same order and the same world
  afterwards.
\<close>

lemma operator_call_equals_invokeCallbacks_void:
  "Callbacks_call True s arguments w = invokeCallbacks True s arguments w"
  by (simp add: Callbacks_call_def invokeCallbacks_def Callbacks_call_loop_eq)

text \<open>
  Claim C10 is about every registry state. For a registry whose callables return a
  value, here strings, both \<open>operator()\<close> and \<open>invokeCallbacks\<close> flow off the end of a
  value-returning function: each call has undefined behaviour, so the code promises no
  result for either and no agreement between the two. (That the model reports the same
  fault for both does not make their results equal: a fault stands for the absence of
  any guarantee.)
\<close>

theorem operator_call_agreement_undefined_when_value_returning:
  "Callbacks_call False container_handlers () 0 = Inl UndefinedBehaviour
   \<and> invokeCallbacks False container_handlers () 0 = Inl UndefinedBehaviour"
  by (simp add: Callbacks_call_def invokeCallbacks_def)

section \<open>Removing every entry\<close>

text \<open>
  \<open>deregister_all_callbacks\<close> removes every entry and leaves the counter alone. On the
  emptied registry the short-circuiting invocations leave the world as it was, so no
  callable ran, and return the empty container and \<open>false\<close>; so do \<open>invokeCallbacks\<close>
  and \<open>operator()\<close> when \<open>CallbackReturnType\<close> is \<open>void\<close>. Deregistering on the
  emptied registry finds nothing and keeps it empty.
\<close>

lemma deregister_all_callbacks_silences_defined_invocation:
  "deregister_all_callbacks s =
     \<lparr>m_callbacks = [], m_lastAssignedCallback_ID = m_lastAssignedCallback_ID s\<rparr>
   \<and> invokeCallbacks True (deregister_all_callbacks s) arguments w = Inr w
   \<and> Callbacks_call True (deregister_all_callbacks s) arguments w = Inr w
   \<and> invokeCallbacksUntilOneOfThemReturnsANonEmptyContainer
        (deregister_all_callbacks sc) arguments w = ([], w)
   \<and> invokeCallbacksUntilOneOfThemReturnsANonZeroValue
        (deregister_all_callbacks sb) arguments w = (False, w)
   \<and> deregister_callback callbackID (deregister_all_callbacks s) =
        Inr (False, deregister_all_callbacks s)"
  by (simp add: deregister_all_callbacks_def invokeCallbacks_def Callbacks_call_def
      invokeCallbacksUntilOneOfThemReturnsANonEmptyContainer_def
      invokeCallbacksUntilOneOfThemReturnsANonZeroValue_def deregister_callback_small INT_MAX_def)

text \<open>
  Claim C8 is about any invocation after \<open>deregister_all_callbacks\<close>. For a registry
  whose callables return a value, here booleans, the emptied registry has no entry,
  and yet \<open>invokeCallbacks\<close> and \<open>operator()\<close> flow off the end of a value-returning
  function: the calls have undefined behaviour, and the code promises neither that no
  callable runs nor any result.
\<close>

theorem invocation_after_deregister_all_undefined_when_value_returning:
  "m_callbacks (deregister_all_callbacks boolean_handlers) = []
   \<and> invokeCallbacks False (deregister_all_callbacks boolean_handlers) () 0 =
       Inl UndefinedBehaviour
   \<and> Callbacks_call False (deregister_all_callbacks boolean_handlers) () 0 =
       Inl UndefinedBehaviour"
  by (simp add: deregister_all_callbacks_def Callbacks_call_def invokeCallbacks_def)

section \<open>Short-circuiting invocation\<close>





end
